theory Spec2Isabelle
  imports Main "HOL-Library.Word"
begin

unbundle bit_operations_syntax

section \<open>Python values\<close>

text \<open>
  A Python \<open>bytes\<close> object is a list of 8-bit characters; a Python \<open>str\<close> is a list
  of Unicode code points. The two are different types, as they are in Python, where
  \<open>"a" == b"a"\<close> is false.
\<close>

type_synonym bytes = string
type_synonym pystr = "nat list"

datatype error =
    UnicodeEncodeError
  | UnicodeDecodeError
  | AttributeError
  | ValueError
  | DataError
  | ResponseError
  | RequestException

text \<open>
  The values that travel through the cache. A float is carried by the text that
  \<open>repr\<close> gives it, which is all the Redis client ever reads of it.
\<close>

datatype pyval =
    PStr pystr
  | PBytes bytes
  | PInt int
  | PFloat string

definition ascii :: "string \<Rightarrow> pystr" where
  "ascii s = map of_char s"

subsection \<open>UTF-8\<close>

text \<open>
  \<open>str.encode("utf-8")\<close>: one to four bytes for each code point; a surrogate
  (U+D800 to U+DFFF) has no encoding and raises \<open>UnicodeEncodeError\<close>.
\<close>

definition utf8_encode_point :: "nat \<Rightarrow> nat list option" where
  "utf8_encode_point c =
    (if c < 0x80 then Some [c]
     else if c < 0x800 then Some [0xC0 + c div 64, 0x80 + c mod 64]
     else if c < 0x10000 then
       (if 0xD800 \<le> c \<and> c < 0xE000 then None
        else Some [0xE0 + c div 4096, 0x80 + c div 64 mod 64, 0x80 + c mod 64])
     else if c < 0x110000 then
       Some [0xF0 + c div 262144, 0x80 + c div 4096 mod 64,
             0x80 + c div 64 mod 64, 0x80 + c mod 64]
     else None)"

fun utf8_encode_points :: "pystr \<Rightarrow> nat list option" where
  "utf8_encode_points [] = Some []"
| "utf8_encode_points (c # cs) =
    (case utf8_encode_point c of
       None \<Rightarrow> None
     | Some bs \<Rightarrow> (case utf8_encode_points cs of None \<Rightarrow> None | Some rest \<Rightarrow> Some (bs @ rest)))"

definition utf8_encode :: "pystr \<Rightarrow> error + bytes" where
  "utf8_encode s =
    (case utf8_encode_points s of
       None \<Rightarrow> Inl UnicodeEncodeError
     | Some bs \<Rightarrow> Inr (map char_of bs))"

text \<open>
  \<open>bytes.decode("utf-8", errors)\<close>, after CPython's decoder. \<open>utf8_next b0 rest\<close>
  reads the sequence that starts with the byte \<open>b0\<close>: it gives the code point, or
  \<open>None\<close> for an invalid or truncated sequence, and how many of the following
  bytes belong to it (for an invalid sequence: the bytes that the error covers and that
  \<open>errors="ignore"\<close> drops). Overlong forms, surrogates and code points above
  U+10FFFF are refused at the second byte.
\<close>

definition continuation :: "nat \<Rightarrow> bool" where
  "continuation b = (0x80 \<le> b \<and> b < 0xC0)"

definition utf8_next :: "nat \<Rightarrow> nat list \<Rightarrow> nat option \<times> nat" where
  "utf8_next b0 rest =
    (if b0 < 0x80 then (Some b0, 0)
     else if b0 < 0xC2 then (None, 0)
     else if b0 < 0xE0 then
       (case rest of
          [] \<Rightarrow> (None, 0)
        | b1 # _ \<Rightarrow>
            if continuation b1 then (Some ((b0 - 0xC0) * 64 + (b1 - 0x80)), 1)
            else (None, 0))
     else if b0 < 0xF0 then
       (case rest of
          [] \<Rightarrow> (None, 0)
        | b1 # rest1 \<Rightarrow>
            if \<not> continuation b1 then (None, 0)
            else if (if b1 < 0xA0 then b0 = 0xE0 else b0 = 0xED) then (None, 0)
            else (case rest1 of
                    [] \<Rightarrow> (None, 1)
                  | b2 # _ \<Rightarrow>
                      if continuation b2
                      then (Some ((b0 - 0xE0) * 4096 + (b1 - 0x80) * 64 + (b2 - 0x80)), 2)
                      else (None, 1)))
     else if b0 < 0xF5 then
       (case rest of
          [] \<Rightarrow> (None, 0)
        | b1 # rest1 \<Rightarrow>
            if \<not> continuation b1 then (None, 0)
            else if (if b1 < 0x90 then b0 = 0xF0 else b0 = 0xF4) then (None, 0)
            else (case rest1 of
                    [] \<Rightarrow> (None, 1)
                  | b2 # rest2 \<Rightarrow>
                      if \<not> continuation b2 then (None, 1)
                      else (case rest2 of
                              [] \<Rightarrow> (None, 2)
                            | b3 # _ \<Rightarrow>
                                if continuation b3
                                then (Some ((b0 - 0xF0) * 262144 + (b1 - 0x80) * 4096
                                            + (b2 - 0x80) * 64 + (b3 - 0x80)), 3)
                                else (None, 2))))
     else (None, 0))"

fun utf8_decode_bytes :: "bool \<Rightarrow> nat list \<Rightarrow> pystr option" where
  "utf8_decode_bytes ignore [] = Some []"
| "utf8_decode_bytes ignore (b0 # rest) =
    (case utf8_next b0 rest of
       (Some c, n) \<Rightarrow> map_option (Cons c) (utf8_decode_bytes ignore (drop n rest))
     | (None, n) \<Rightarrow>
         if ignore then utf8_decode_bytes ignore (drop n rest) else None)"

definition utf8_decode :: "bytes \<Rightarrow> error + pystr" where
  "utf8_decode b =
    (case utf8_decode_bytes False (map of_char b) of
       None \<Rightarrow> Inl UnicodeDecodeError
     | Some s \<Rightarrow> Inr s)"

definition utf8_decode_ignore :: "bytes \<Rightarrow> pystr" where
  "utf8_decode_ignore b =
    (case utf8_decode_bytes True (map of_char b) of None \<Rightarrow> [] | Some s \<Rightarrow> s)"

subsection \<open>Integers as text\<close>

text \<open>\<open>repr\<close> of an int: decimal digits, with a minus sign when negative.\<close>

definition digit_char :: "nat \<Rightarrow> char" where
  "digit_char d = ''0123456789abcdef'' ! d"

fun show_nat :: "nat \<Rightarrow> string" where
  "show_nat n =
    (if n < 10 then [digit_char n] else show_nat (n div 10) @ [digit_char (n mod 10)])"

declare show_nat.simps [simp del]

definition repr_int :: "int \<Rightarrow> string" where
  "repr_int i = (if i < 0 then CHR ''-'' # show_nat (nat (- i)) else show_nat (nat i))"

text \<open>
  \<open>int(s)\<close> on a str. Code points outside ASCII are first mapped by the Unicode
  character database of the interpreter, which is a parameter here: a space becomes
  an ASCII space, a decimal digit its ASCII digit, anything else \<open>?\<close>. Then: white
  space around, an optional sign, decimal digits with single underscores between
  them. Anything else raises \<open>ValueError\<close>.
\<close>

record unicode_data =
  is_space :: "nat \<Rightarrow> bool"
  decimal_value :: "nat \<Rightarrow> nat option"

definition to_ascii :: "unicode_data \<Rightarrow> pystr \<Rightarrow> nat list" where
  "to_ascii u s =
    map (\<lambda>c. if c < 128 then c
             else if is_space u c then 32
             else (case decimal_value u c of Some d \<Rightarrow> 48 + d | None \<Rightarrow> 63)) s"

definition digit_fold :: "nat \<Rightarrow> nat list \<Rightarrow> nat" where
  "digit_fold acc ds = foldl (\<lambda>a c. a * 10 + (c - 48)) acc ds"

definition py_space :: "nat \<Rightarrow> bool" where
  "py_space c = (c = 32 \<or> (9 \<le> c \<and> c \<le> 13))"

fun int_digits :: "nat \<Rightarrow> bool \<Rightarrow> nat list \<Rightarrow> nat option" where
  "int_digits acc prev [] = (if prev then Some acc else None)"
| "int_digits acc prev (c # cs) =
    (if 48 \<le> c \<and> c < 58 then int_digits (acc * 10 + (c - 48)) True cs
     else if c = 95 \<and> prev then int_digits acc False cs
     else None)"

definition py_int :: "unicode_data \<Rightarrow> pystr \<Rightarrow> error + int" where
  "py_int u s =
    (let t = rev (dropWhile py_space (rev (dropWhile py_space (to_ascii u s)))) in
     case (case t of
             [] \<Rightarrow> None
           | c # cs \<Rightarrow>
               if c = 45 then map_option (\<lambda>n. - int n) (int_digits 0 False cs)
               else if c = 43 then map_option int (int_digits 0 False cs)
               else map_option int (int_digits 0 False t)) of
       None \<Rightarrow> Inl ValueError
     | Some i \<Rightarrow> Inr i)"

section \<open>The Redis server, seen through the client\<close>

text \<open>
  The repository holds no storage of its own: every method talks to a Redis server
  through the \<open>redis\<close> client library. The server is modelled by its key space (each
  key holds a string or a list, with an optional deadline in milliseconds, after which
  the key is gone), its clock, and the commands the client has sent so far. Time passes
  between calls, not inside one.
\<close>

datatype rvalue = RString bytes | RList "bytes list"

datatype command =
    FLUSHDB
  | GET bytes
  | SET bytes bytes
  | INCR bytes
  | EXPIRE bytes nat
  | RPUSH bytes bytes
  | LRANGE bytes int int

record redis =
  keyspace :: "bytes \<rightharpoonup> rvalue \<times> nat option"
  clock :: nat
  sent :: "command list"

definition elapse :: "nat \<Rightarrow> redis \<Rightarrow> redis" where
  "elapse ms r = r\<lparr>clock := clock r + ms\<rparr>"

definition send :: "command \<Rightarrow> redis \<Rightarrow> redis" where
  "send c r = r\<lparr>sent := sent r @ [c]\<rparr>"

definition live :: "redis \<Rightarrow> bytes \<Rightarrow> (rvalue \<times> nat option) option" where
  "live r k =
    (case keyspace r k of
       None \<Rightarrow> None
     | Some (v, None) \<Rightarrow> Some (v, None)
     | Some (v, Some t) \<Rightarrow> if t \<le> clock r then None else Some (v, Some t))"

text \<open>
  The client turns each argument into bytes before it sends a command: bytes as they
  are, an int or a float through \<open>repr\<close>, a str through UTF-8.
\<close>

definition encode_value :: "pyval \<Rightarrow> error + bytes" where
  "encode_value v =
    (case v of
       PBytes b \<Rightarrow> Inr b
     | PInt i \<Rightarrow> Inr (repr_int i)
     | PFloat t \<Rightarrow> Inr t
     | PStr s \<Rightarrow> utf8_encode s)"

definition flushdb :: "redis \<Rightarrow> redis" where
  "flushdb r = (send FLUSHDB r)\<lparr>keyspace := Map.empty\<rparr>"

definition redis_get :: "pystr \<Rightarrow> redis \<Rightarrow> (error + bytes option) \<times> redis" where
  "redis_get name r =
    (case utf8_encode name of
       Inl e \<Rightarrow> (Inl e, r)
     | Inr k \<Rightarrow>
         (case live r k of
            None \<Rightarrow> Inr None
          | Some (RString v, _) \<Rightarrow> Inr (Some v)
          | Some (RList _, _) \<Rightarrow> Inl ResponseError,
          send (GET k) r))"

text \<open>\<open>SET\<close> replaces whatever the key held and clears its deadline.\<close>

definition redis_set :: "pystr \<Rightarrow> pyval \<Rightarrow> redis \<Rightarrow> (error + bool) \<times> redis" where
  "redis_set name v r =
    (case utf8_encode name of
       Inl e \<Rightarrow> (Inl e, r)
     | Inr k \<Rightarrow>
         (case encode_value v of
            Inl e \<Rightarrow> (Inl e, r)
          | Inr b \<Rightarrow>
              (Inr True, (send (SET k b) r)\<lparr>keyspace := (keyspace r)(k \<mapsto> (RString b, None))\<rparr>)))"

text \<open>
  \<open>INCR\<close> reads the key as a signed 64-bit integer in canonical decimal form (an
  absent key counts as 0), and refuses a list, any other text, and an overflow.
  \<open>counter\<close> is the integer that a key stands for in this reading. The new value
  keeps the deadline of the old one.
\<close>

fun parse_digits :: "nat \<Rightarrow> string \<Rightarrow> nat option" where
  "parse_digits acc [] = Some acc"
| "parse_digits acc (c # cs) =
    (let d = of_char c in
     if (48::nat) \<le> d \<and> d < 58 then parse_digits (acc * 10 + (d - 48)) cs else None)"

definition string2ll :: "bytes \<Rightarrow> int option" where
  "string2ll s =
    (case (case s of
             [] \<Rightarrow> None
           | c # cs \<Rightarrow>
               if c = CHR ''-'' then map_option (\<lambda>n. - int n) (parse_digits 0 cs)
               else map_option int (parse_digits 0 s)) of
       None \<Rightarrow> None
     | Some i \<Rightarrow>
         if repr_int i = s \<and> - (2 ^ 63) \<le> i \<and> i < 2 ^ 63 then Some i else None)"

definition counter :: "redis \<Rightarrow> bytes \<Rightarrow> int option" where
  "counter r k =
    (case live r k of
       None \<Rightarrow> Some 0
     | Some (RString v, _) \<Rightarrow> string2ll v
     | Some (RList _, _) \<Rightarrow> None)"

definition deadline :: "redis \<Rightarrow> bytes \<Rightarrow> nat option" where
  "deadline r k = (case live r k of None \<Rightarrow> None | Some (_, d) \<Rightarrow> d)"

definition redis_incr :: "pystr \<Rightarrow> redis \<Rightarrow> (error + int) \<times> redis" where
  "redis_incr name r =
    (case utf8_encode name of
       Inl e \<Rightarrow> (Inl e, r)
     | Inr k \<Rightarrow>
         (case counter r k of
            None \<Rightarrow> (Inl ResponseError, send (INCR k) r)
          | Some i \<Rightarrow>
              if i = 2 ^ 63 - 1 then (Inl ResponseError, send (INCR k) r)
              else (Inr (i + 1),
                    (send (INCR k) r)\<lparr>keyspace :=
                       (keyspace r)(k \<mapsto> (RString (repr_int (i + 1)), deadline r k))\<rparr>)))"

text \<open>\<open>EXPIRE\<close> gives a live key a deadline, so many seconds from now.\<close>

definition redis_expire :: "pystr \<Rightarrow> nat \<Rightarrow> redis \<Rightarrow> (error + bool) \<times> redis" where
  "redis_expire name seconds r =
    (case utf8_encode name of
       Inl e \<Rightarrow> (Inl e, r)
     | Inr k \<Rightarrow>
         (case live r k of
            None \<Rightarrow> (Inr False, send (EXPIRE k seconds) r)
          | Some (v, _) \<Rightarrow>
              (Inr True,
               (send (EXPIRE k seconds) r)\<lparr>keyspace :=
                  (keyspace r)(k \<mapsto> (v, Some (clock r + seconds * 1000)))\<rparr>)))"

text \<open>\<open>RPUSH\<close> appends to the list at the key, which it creates when absent.\<close>

definition redis_rpush :: "pystr \<Rightarrow> pyval \<Rightarrow> redis \<Rightarrow> (error + nat) \<times> redis" where
  "redis_rpush name v r =
    (case utf8_encode name of
       Inl e \<Rightarrow> (Inl e, r)
     | Inr k \<Rightarrow>
         (case encode_value v of
            Inl e \<Rightarrow> (Inl e, r)
          | Inr b \<Rightarrow>
              (case live r k of
                 None \<Rightarrow>
                   (Inr 1, (send (RPUSH k b) r)\<lparr>keyspace := (keyspace r)(k \<mapsto> (RList [b], None))\<rparr>)
               | Some (RString _, _) \<Rightarrow> (Inl ResponseError, send (RPUSH k b) r)
               | Some (RList xs, d) \<Rightarrow>
                   (Inr (Suc (length xs)),
                    (send (RPUSH k b) r)\<lparr>keyspace :=
                       (keyspace r)(k \<mapsto> (RList (xs @ [b]), d))\<rparr>))))"

text \<open>
  \<open>LRANGE\<close>: the elements from index \<open>start\<close> to index \<open>stop\<close>, both included, a
  negative index counting from the end.
\<close>

definition lrange_slice :: "'a list \<Rightarrow> int \<Rightarrow> int \<Rightarrow> 'a list" where
  "lrange_slice xs start stop =
    (let n = int (length xs);
         s = (if start < 0 then max 0 (n + start) else start);
         e = (if stop < 0 then n + stop else min stop (n - 1))
     in if e < s \<or> n \<le> s then [] else take (nat (e - s + 1)) (drop (nat s) xs))"

definition redis_lrange :: "pystr \<Rightarrow> int \<Rightarrow> int \<Rightarrow> redis \<Rightarrow> (error + bytes list) \<times> redis" where
  "redis_lrange name start stop r =
    (case utf8_encode name of
       Inl e \<Rightarrow> (Inl e, r)
     | Inr k \<Rightarrow>
         (case live r k of
            None \<Rightarrow> Inr []
          | Some (RString _, _) \<Rightarrow> Inl ResponseError
          | Some (RList xs, _) \<Rightarrow> Inr (lrange_slice xs start stop),
          send (LRANGE k start stop) r))"

section \<open>exercise.py: the class RedisCache\<close>

text \<open>
  An instance holds nothing but its connection, so \<open>self\<close> is the server.
  \<open>__init__\<close> (lines 18 to 23) connects and flushes the database.
\<close>

definition init :: "redis \<Rightarrow> redis" where
  "init self = flushdb self"

text \<open>
  \<open>_decode_value\<close> (lines 25 to 40). The \<open>except Exception\<close> also catches the
  \<open>AttributeError\<close> of \<open>None.decode\<close>, which is what an absent key gives.
\<close>

definition decode_value :: "bytes option \<Rightarrow> pyval \<Rightarrow> pyval" where
  "decode_value v dflt =
    (case v of
       None \<Rightarrow> dflt
     | Some b \<Rightarrow> (case utf8_decode b of Inl _ \<Rightarrow> dflt | Inr s \<Rightarrow> PStr s))"

text \<open>\<open>get\<close> (lines 70 to 82); without a decoding function the default is \<open>""\<close>.\<close>

definition get ::
  "pystr \<Rightarrow> (bytes option \<Rightarrow> error + pyval) option \<Rightarrow> redis \<Rightarrow> (error + pyval) \<times> redis" where
  "get key decode_function self =
    (case redis_get key self of
       (Inl e, self') \<Rightarrow> (Inl e, self')
     | (Inr v, self') \<Rightarrow>
         (case decode_function of
            None \<Rightarrow> Inr (decode_value v (PStr []))
          | Some f \<Rightarrow> f v,
          self'))"

text \<open>\<open>get_str\<close> (lines 84 to 94) and \<open>get_int\<close> (lines 96 to 106).\<close>

definition get_str :: "pystr \<Rightarrow> redis \<Rightarrow> (error + pyval) \<times> redis" where
  "get_str key self = get key (Some (\<lambda>v. Inr (decode_value v (PStr [])))) self"

definition get_int :: "unicode_data \<Rightarrow> pystr \<Rightarrow> redis \<Rightarrow> (error + pyval) \<times> redis" where
  "get_int u key self =
    get key
      (Some (\<lambda>v. case v of
                  None \<Rightarrow> Inl AttributeError
                | Some b \<Rightarrow> map_sum id PInt (py_int u (utf8_decode_ignore b))))
      self"

text \<open>
  \<open>uuid4()\<close> draws 16 random bytes and overwrites six of their bits with the variant
  and the version; \<open>str\<close> of a UUID is its 32 hexadecimal digits in five groups.
\<close>

definition uuid4 :: "128 word \<Rightarrow> 128 word" where
  "uuid4 random =
    (((random AND NOT (push_bit 48 0xC000)) OR push_bit 48 0x8000)
       AND NOT (push_bit 64 0xF000)) OR push_bit 76 4"

fun hex_digits :: "nat \<Rightarrow> nat \<Rightarrow> string" where
  "hex_digits 0 n = []"
| "hex_digits (Suc k) n = hex_digits k (n div 16) @ [digit_char (n mod 16)]"

definition uuid_hex :: "128 word \<Rightarrow> string" where
  "uuid_hex u =
    (let h = hex_digits 32 (unat u) in
     take 8 h @ ''-'' @ take 4 (drop 8 h) @ ''-'' @ take 4 (drop 12 h) @ ''-''
       @ take 4 (drop 16 h) @ ''-'' @ drop 20 h)"

definition uuid_str :: "128 word \<Rightarrow> pystr" where
  "uuid_str u = ascii (uuid_hex u)"

text \<open>
  \<open>store\<close> as written at lines 56 to 68; \<open>random\<close> is what the randomness source
  hands to \<open>uuid4\<close> in this call.
\<close>

definition store :: "128 word \<Rightarrow> pyval \<Rightarrow> redis \<Rightarrow> (error + pyval) \<times> redis" where
  "store random data self =
    (let key = uuid_str (uuid4 random) in
     case redis_set key data self of
       (Inl e, self') \<Rightarrow> (Inl e, self')
     | (Inr _, self') \<Rightarrow> (Inr (PStr key), self'))"

text \<open>
  A function object: its qualified name and what a call does. \<open>_get_function_key\<close>
  (lines 42 to 53) gives the qualified name.
\<close>

record 'a pyfunc =
  qualname :: pystr
  body :: "'a \<Rightarrow> redis \<Rightarrow> (error + pyval) \<times> redis"

definition get_function_key :: "('a, 'z) pyfunc_scheme \<Rightarrow> pystr" where
  "get_function_key func = qualname func"

text \<open>
  Modelled from the spec: the decorator \<open>count_calls\<close>, which line 55 applies to
  \<open>store\<close> and which no source file defines. The spec gives a decorated function a
  counter keyed by its derived name, which counts its invocations, and two ordered
  sequences of its call inputs and call outputs, and names increment and list-append
  as the operations used; the keys of the two sequences are those that \<open>replay\<close> reads
  (lines 121 and 122). \<open>repr_args\<close> is the text under which a call's input is
  recorded, which the spec leaves open.
\<close>

definition count_calls :: "('a \<Rightarrow> pystr) \<Rightarrow> 'a pyfunc \<Rightarrow> 'a pyfunc" where
  "count_calls repr_args method =
    method\<lparr>body := \<lambda>args self.
      (let key = get_function_key method in
       case redis_incr key self of
         (Inl e, s1) \<Rightarrow> (Inl e, s1)
       | (Inr _, s1) \<Rightarrow>
           (case redis_rpush (key @ ascii '':inputs'') (PStr (repr_args args)) s1 of
              (Inl e, s2) \<Rightarrow> (Inl e, s2)
            | (Inr _, s2) \<Rightarrow>
                (case body method args s2 of
                   (Inl e, s3) \<Rightarrow> (Inl e, s3)
                 | (Inr output, s3) \<Rightarrow>
                     (case redis_rpush (key @ ascii '':outputs'') output s3 of
                        (Inl e, s4) \<Rightarrow> (Inl e, s4)
                      | (Inr _, s4) \<Rightarrow> (Inr output, s4)))))\<rparr>"

text \<open>\<open>RedisCache.store\<close>, the method of lines 55 to 68 with its decorator.\<close>

definition RedisCache_store :: "(pyval \<Rightarrow> pystr) \<Rightarrow> (128 word \<times> pyval) pyfunc" where
  "RedisCache_store repr_args =
    count_calls (\<lambda>(random, data). repr_args data)
      \<lparr>qualname = ascii ''RedisCache.store'', body = \<lambda>(random, data). store random data\<rparr>"

text \<open>
  \<open>replay\<close> (lines 108 to 125). The result is what was printed, line by line, and the
  exception that ended the call, if any. The count is read twice when it is there:
  once for the test, once for the value.
\<close>

definition truthy :: "bytes option \<Rightarrow> bool" where
  "truthy v = (case v of None \<Rightarrow> False | Some b \<Rightarrow> b \<noteq> [])"

fun print_calls :: "pystr \<Rightarrow> (bytes \<times> bytes) list \<Rightarrow> pystr list \<times> error option" where
  "print_calls func_name [] = ([], None)"
| "print_calls func_name ((inp, outp) # rest) =
    (case utf8_decode inp of
       Inl e \<Rightarrow> ([], Some e)
     | Inr i \<Rightarrow>
         (case utf8_decode outp of
            Inl e \<Rightarrow> ([], Some e)
          | Inr out \<Rightarrow>
              (case print_calls func_name rest of
                 (lines, err) \<Rightarrow>
                   ((func_name @ ascii ''(*'' @ i @ ascii '') -> '' @ out) # lines, err))))"

definition replay ::
  "unicode_data \<Rightarrow> ('a, 'z) pyfunc_scheme \<Rightarrow> redis \<Rightarrow> (pystr list \<times> error option) \<times> redis" where
  "replay u func redis_instance =
    (let func_name = get_function_key func in
     case redis_get func_name redis_instance of
       (Inl e, r1) \<Rightarrow> (([], Some e), r1)
     | (Inr present, r1) \<Rightarrow>
         (case (if truthy present
                then (case redis_get func_name r1 of
                        (Inl e, r2) \<Rightarrow> (Inl e, r2)
                      | (Inr v, r2) \<Rightarrow>
                          (case v of
                             None \<Rightarrow> Inl AttributeError
                           | Some b \<Rightarrow>
                               (case utf8_decode b of Inl e \<Rightarrow> Inl e | Inr s \<Rightarrow> py_int u s),
                           r2))
                else (Inr 0, r1)) of
            (Inl e, r2) \<Rightarrow> (([], Some e), r2)
          | (Inr call_count, r2) \<Rightarrow>
              (let header = func_name @ ascii '' was called '' @ ascii (repr_int call_count)
                              @ ascii '' times:'' in
               case redis_lrange (func_name @ ascii '':inputs'') 0 (- 1) r2 of
                 (Inl e, r3) \<Rightarrow> (([header], Some e), r3)
               | (Inr inputs, r3) \<Rightarrow>
                   (case redis_lrange (func_name @ ascii '':outputs'') 0 (- 1) r3 of
                      (Inl e, r4) \<Rightarrow> (([header], Some e), r4)
                    | (Inr outputs, r4) \<Rightarrow>
                        (case print_calls func_name (zip inputs outputs) of
                           (lines, err) \<Rightarrow> ((header # lines, err), r4))))))"

section \<open>web.py: the page cache\<close>

text \<open>
  \<open>count_url_access\<close> (lines 16 to 52) wraps \<open>method\<close>; \<open>redis_store\<close> is the
  connection of line 14. \<open>get_page\<close> (lines 54 to 66) is the wrapped HTTP fetch;
  \<open>web\<close> is what \<open>requests.get(url).text\<close> gives at the time of the call.
\<close>

definition count_url_access ::
  "(pystr \<Rightarrow> error + pystr) \<Rightarrow> pystr \<Rightarrow> redis \<Rightarrow> (error + pystr) \<times> redis" where
  "count_url_access method url redis_store =
    (let cached_key = ascii ''cached:'' @ url in
     case redis_get cached_key redis_store of
       (Inl e, r1) \<Rightarrow> (Inl e, r1)
     | (Inr cached_data, r1) \<Rightarrow>
         if truthy cached_data
         then (case cached_data of
                 Some b \<Rightarrow> (utf8_decode b, r1)
               | None \<Rightarrow> (Inl AttributeError, r1))
         else
           (let count_key = ascii ''count:'' @ url in
            case method url of
              Inl e \<Rightarrow> (Inl e, r1)
            | Inr html_content \<Rightarrow>
                (case redis_incr count_key r1 of
                   (Inl e, r2) \<Rightarrow> (Inl e, r2)
                 | (Inr _, r2) \<Rightarrow>
                     (case redis_set cached_key (PStr html_content) r2 of
                        (Inl e, r3) \<Rightarrow> (Inl e, r3)
                      | (Inr _, r3) \<Rightarrow>
                          (case redis_expire cached_key 10 r3 of
                             (Inl e, r4) \<Rightarrow> (Inl e, r4)
                           | (Inr _, r4) \<Rightarrow> (Inr html_content, r4))))))"

definition get_page :: "(pystr \<Rightarrow> error + pystr) \<Rightarrow> pystr \<Rightarrow> redis \<Rightarrow> (error + pystr) \<times> redis" where
  "get_page web url redis_store = count_url_access web url redis_store"

section \<open>What is observed of the store\<close>

text \<open>
  The list under a key, and the commands a call has added to those sent before.
\<close>

definition sequence :: "redis \<Rightarrow> bytes \<Rightarrow> bytes list option" where
  "sequence r k =
    (case live r k of
       None \<Rightarrow> Some []
     | Some (RList xs, _) \<Rightarrow> Some xs
     | Some (RString _, _) \<Rightarrow> None)"

definition issued :: "redis \<Rightarrow> redis \<Rightarrow> command list" where
  "issued r r' = drop (length (sent r)) (sent r')"

definition reads :: "command \<Rightarrow> bool" where
  "reads c = (case c of GET _ \<Rightarrow> True | LRANGE _ _ _ \<Rightarrow> True | _ \<Rightarrow> False)"

definition listed :: "command \<Rightarrow> bool" where
  "listed c =
    (case c of SET _ _ \<Rightarrow> True | INCR _ \<Rightarrow> True | RPUSH _ _ \<Rightarrow> True | EXPIRE _ _ \<Rightarrow> True
     | _ \<Rightarrow> False)"

definition empty_redis :: redis where
  "empty_redis = \<lparr>keyspace = Map.empty, clock = 0, sent = []\<rparr>"

section \<open>Facts about the encodings\<close>

lemma utf8_encode_points_append:
  "utf8_encode_points (a @ b) =
    (case utf8_encode_points a of
       None \<Rightarrow> None
     | Some x \<Rightarrow> (case utf8_encode_points b of None \<Rightarrow> None | Some y \<Rightarrow> Some (x @ y)))"
  by (induction a) (auto split: option.splits)

lemma utf8_encode_append:
  "utf8_encode (a @ b) =
    (case utf8_encode a of
       Inl e \<Rightarrow> Inl e
     | Inr x \<Rightarrow> (case utf8_encode b of Inl e \<Rightarrow> Inl e | Inr y \<Rightarrow> Inr (x @ y)))"
  by (simp add: utf8_encode_def utf8_encode_points_append split: option.splits)

lemma utf8_encode_points_ascii:
  "\<forall>c\<in>set s. c < 128 \<Longrightarrow> utf8_encode_points s = Some s"
  by (induction s) (auto simp: utf8_encode_point_def)

lemma utf8_encode_ascii:
  assumes "\<forall>c\<in>set s. of_char c < (128::nat)"
  shows "utf8_encode (ascii s) = Inr s"
proof -
  have "utf8_encode_points (map of_char s) = Some (map of_char s)"
    using assms by (intro utf8_encode_points_ascii) auto
  then show ?thesis
    by (simp add: utf8_encode_def ascii_def comp_def)
qed

lemma utf8_encode_point_bytes:
  "utf8_encode_point c = Some bs \<Longrightarrow> \<forall>b\<in>set bs. b < 256"
  unfolding utf8_encode_point_def
  by (auto split: if_splits)

lemma utf8_encode_points_bytes:
  "utf8_encode_points s = Some bs \<Longrightarrow> \<forall>b\<in>set bs. b < 256"
proof (induction s arbitrary: bs)
  case Nil
  then show ?case by simp
next
  case (Cons c cs)
  then show ?case
    by (fastforce split: option.splits dest: utf8_encode_point_bytes)
qed

lemma utf8_next_two:
  "2 \<le> q \<Longrightarrow> q < 32 \<Longrightarrow> l < 64
    \<Longrightarrow> utf8_next (0xC0 + q) ((0x80 + l) # rest) = (Some (q * 64 + l), 1)"
  by (simp add: utf8_next_def continuation_def)

lemma utf8_next_three:
  "q < 16 \<Longrightarrow> m < 64 \<Longrightarrow> l < 64 \<Longrightarrow> 0x800 \<le> q * 4096 + m * 64 + l
    \<Longrightarrow> \<not> (0xD800 \<le> q * 4096 + m * 64 + l \<and> q * 4096 + m * 64 + l < 0xE000)
    \<Longrightarrow> utf8_next (0xE0 + q) ((0x80 + m) # (0x80 + l) # rest)
          = (Some (q * 4096 + m * 64 + l), 2)"
  by (auto simp: utf8_next_def continuation_def)

lemma utf8_next_four:
  "q < 8 \<Longrightarrow> p < 64 \<Longrightarrow> m < 64 \<Longrightarrow> l < 64
    \<Longrightarrow> 0x10000 \<le> q * 262144 + p * 4096 + m * 64 + l
    \<Longrightarrow> q * 262144 + p * 4096 + m * 64 + l < 0x110000
    \<Longrightarrow> utf8_next (0xF0 + q) ((0x80 + p) # (0x80 + m) # (0x80 + l) # rest)
          = (Some (q * 262144 + p * 4096 + m * 64 + l), 3)"
  by (auto simp: utf8_next_def continuation_def)

lemma split_two: "(c::nat) = c div 64 * 64 + c mod 64"
  by simp

lemma split_three: "(c::nat) = c div 4096 * 4096 + c div 64 mod 64 * 64 + c mod 64"
proof -
  have "c div 4096 = c div 64 div 64"
    by (simp add: div_mult2_eq [symmetric])
  moreover have "c div 64 div 64 * 64 + c div 64 mod 64 = c div 64"
    by (rule div_mult_mod_eq)
  moreover have "c div 64 * 64 + c mod 64 = c"
    by (rule div_mult_mod_eq)
  ultimately show ?thesis by linarith
qed

lemma split_four:
  "(c::nat) = c div 262144 * 262144 + c div 4096 mod 64 * 4096 + c div 64 mod 64 * 64 + c mod 64"
proof -
  have "c div 262144 = c div 4096 div 64"
    by (simp add: div_mult2_eq [symmetric])
  moreover have "c div 4096 div 64 * 64 + c div 4096 mod 64 = c div 4096"
    by (rule div_mult_mod_eq)
  ultimately show ?thesis using split_three [of c] by linarith
qed

lemma utf8_next_encode_point:
  assumes "utf8_encode_point c = Some (b # bs)"
  shows "utf8_next b (bs @ rest) = (Some c, length bs)"
proof -
  consider "c < 0x80" | "0x80 \<le> c" "c < 0x800" | "0x800 \<le> c" "c < 0x10000"
    | "0x10000 \<le> c" "c < 0x110000" | "0x110000 \<le> c"
    by linarith
  then show ?thesis
  proof cases
    case 1
    with assms show ?thesis by (auto simp: utf8_encode_point_def utf8_next_def)
  next
    case 2
    then have "2 \<le> c div 64" "c div 64 < 32" by simp_all
    then have "utf8_next (0xC0 + c div 64) ((0x80 + c mod 64) # rest)
                = (Some (c div 64 * 64 + c mod 64), 1)"
      by (intro utf8_next_two) simp_all
    with assms 2 show ?thesis
      by (auto simp: utf8_encode_point_def)
  next
    case 3
    from assms 3 have ns: "\<not> (0xD800 \<le> c \<and> c < 0xE000)"
      and b: "b = 0xE0 + c div 4096" "bs = [0x80 + c div 64 mod 64, 0x80 + c mod 64]"
      by (auto simp: utf8_encode_point_def split: if_splits)
    from 3 have "c div 4096 < 16" by simp
    then have "utf8_next (0xE0 + c div 4096) ((0x80 + c div 64 mod 64) # (0x80 + c mod 64) # rest)
                = (Some (c div 4096 * 4096 + c div 64 mod 64 * 64 + c mod 64), 2)"
      using 3 ns by (intro utf8_next_three) (simp_all flip: split_three)
    with b show ?thesis
      by (simp flip: split_three)
  next
    case 4
    from assms 4 have b: "b = 0xF0 + c div 262144"
        "bs = [0x80 + c div 4096 mod 64, 0x80 + c div 64 mod 64, 0x80 + c mod 64]"
      by (auto simp: utf8_encode_point_def split: if_splits)
    from 4 have "c div 262144 < 8" by simp
    then have "utf8_next (0xF0 + c div 262144)
                 ((0x80 + c div 4096 mod 64) # (0x80 + c div 64 mod 64) # (0x80 + c mod 64) # rest)
                = (Some (c div 262144 * 262144 + c div 4096 mod 64 * 4096
                         + c div 64 mod 64 * 64 + c mod 64), 3)"
      using 4 by (intro utf8_next_four) (simp_all flip: split_four)
    with b show ?thesis
      by (simp flip: split_four)
  next
    case 5
    with assms show ?thesis by (simp add: utf8_encode_point_def)
  qed
qed

lemma utf8_decode_bytes_encode_points:
  "utf8_encode_points s = Some bs \<Longrightarrow> utf8_decode_bytes ig bs = Some s"
proof (induction s arbitrary: bs)
  case Nil
  then show ?case by simp
next
  case (Cons c cs)
  then obtain x y where x: "utf8_encode_point c = Some x"
    and y: "utf8_encode_points cs = Some y" and bs: "bs = x @ y"
    by (auto split: option.splits)
  from x obtain b xs where bx: "x = b # xs"
    by (cases x) (auto simp: utf8_encode_point_def split: if_splits)
  have "utf8_next b (xs @ y) = (Some c, length xs)"
    using x bx by (simp add: utf8_next_encode_point)
  moreover have "utf8_decode_bytes ig y = Some cs"
    using y by (rule Cons.IH)
  ultimately show ?case
    by (simp add: bs bx)
qed

lemma of_char_char_of_bytes:
  "\<forall>b\<in>set bs. b < (256::nat) \<Longrightarrow> map of_char (map char_of bs) = bs"
  by (induction bs) simp_all

lemma utf8_decode_encode:
  assumes "utf8_encode s = Inr b"
  shows "utf8_decode b = Inr s"
proof -
  from assms obtain bs where bs: "utf8_encode_points s = Some bs" and b: "b = map char_of bs"
    by (auto simp: utf8_encode_def split: option.splits)
  have "map of_char b = bs"
    unfolding b using utf8_encode_points_bytes [OF bs] by (rule of_char_char_of_bytes)
  then show ?thesis
    using utf8_decode_bytes_encode_points [OF bs, of False] by (simp add: utf8_decode_def)
qed

lemma utf8_encode_inject:
  assumes "utf8_encode a = Inr k" and "utf8_encode b = Inr k"
  shows "a = b"
  using utf8_decode_encode [OF assms(1)] utf8_decode_encode [OF assms(2)] by simp

lemma utf8_decode_ascii:
  assumes "\<forall>c\<in>set s. of_char c < (128::nat)"
  shows "utf8_decode s = Inr (ascii s)"
  using utf8_encode_ascii [OF assms] by (rule utf8_decode_encode)

lemma upt16: "[0..<16] = [0, 1, 2, 3, 4, 5, 6, 7, 8, 9, 10, 11, 12, 13, 14, 15::nat]"
  by code_simp

lemma digit_char_code: "d < 16 \<Longrightarrow> of_char (digit_char d) = (if d < 10 then 48 + d else 87 + d)"
proof -
  assume "d < 16"
  then have "d \<in> set [0..<16]" by simp
  then have "d \<in> set [0, 1, 2, 3, 4, 5, 6, 7, 8, 9, 10, 11, 12, 13, 14, 15::nat]"
    by (simp only: upt16)
  then show ?thesis
    by (simp only: set_simps insert_iff empty_iff) (elim disjE FalseE; simp add: digit_char_def)
qed

lemma show_nat_digits: "\<forall>c\<in>set (show_nat n). 48 \<le> (of_char c :: nat) \<and> (of_char c :: nat) < 58"
proof (induction n rule: show_nat.induct)
  case (1 n)
  show ?case
  proof (cases "n < 10")
    case True
    then show ?thesis
      by (subst show_nat.simps) (simp add: digit_char_code)
  next
    case False
    with 1 show ?thesis
      by (subst show_nat.simps) (simp add: digit_char_code)
  qed
qed

lemma show_nat_nonempty: "show_nat n \<noteq> []"
  by (subst show_nat.simps) simp

lemma digit_fold_show_nat: "digit_fold 0 (map of_char (show_nat n)) = n"
proof (induction n rule: show_nat.induct)
  case (1 n)
  show ?case
  proof (cases "n < 10")
    case True
    then show ?thesis
      by (subst show_nat.simps) (simp add: digit_fold_def digit_char_code)
  next
    case False
    with 1 have "digit_fold 0 (map of_char (show_nat (n div 10))) = n div 10"
      by simp
    with False show ?thesis
      by (subst show_nat.simps) (simp add: digit_fold_def digit_char_code)
  qed
qed

lemma parse_digits_fold:
  "\<forall>c\<in>set s. 48 \<le> (of_char c :: nat) \<and> (of_char c :: nat) < 58
    \<Longrightarrow> parse_digits acc s = Some (digit_fold acc (map of_char s))"
  by (induction s arbitrary: acc) (simp_all add: digit_fold_def Let_def)

lemma int_digits_fold:
  "\<forall>c\<in>set ds. 48 \<le> c \<and> c < 58 \<Longrightarrow> ds \<noteq> [] \<or> prev
    \<Longrightarrow> int_digits acc prev ds = Some (digit_fold acc ds)"
  by (induction ds arbitrary: acc prev) (simp_all add: digit_fold_def)

lemma parse_digits_show_nat: "parse_digits 0 (show_nat n) = Some n"
  by (simp add: parse_digits_fold show_nat_digits digit_fold_show_nat)

lemma hd_show_nat: "\<exists>c cs. show_nat n = c # cs \<and> c \<noteq> CHR ''-''"
proof -
  obtain c cs where s: "show_nat n = c # cs"
    using show_nat_nonempty [of n] by (cases "show_nat n") auto
  with show_nat_digits [of n] have "48 \<le> (of_char c :: nat)" by simp
  then have "c \<noteq> CHR ''-''" by auto
  with s show ?thesis by blast
qed

lemma string2ll_repr_int:
  assumes "- (2 ^ 63) \<le> i" and "i < 2 ^ 63"
  shows "string2ll (repr_int i) = Some i"
proof (cases "i < 0")
  case True
  then have "repr_int i = CHR ''-'' # show_nat (nat (- i))"
    by (simp add: repr_int_def)
  with True assms show ?thesis
    by (simp add: string2ll_def parse_digits_show_nat)
next
  case False
  then have r: "repr_int i = show_nat (nat i)"
    by (simp add: repr_int_def)
  obtain c cs where s: "show_nat (nat i) = c # cs" "c \<noteq> CHR ''-''"
    using hd_show_nat by blast
  have "parse_digits 0 (c # cs) = Some (nat i)"
    using parse_digits_show_nat [of "nat i"] s by simp
  with False assms r s show ?thesis
    by (simp add: string2ll_def)
qed

lemma repr_int_ascii: "\<forall>c\<in>set (repr_int i). (of_char c :: nat) < 128"
proof (cases "i < 0")
  case True
  then show ?thesis
    using show_nat_digits [of "nat (- i)"] by (auto simp: repr_int_def)
next
  case False
  then show ?thesis
    using show_nat_digits [of "nat i"] by (auto simp: repr_int_def)
qed

lemma utf8_decode_repr_int: "utf8_decode (repr_int i) = Inr (ascii (repr_int i))"
  by (rule utf8_decode_ascii) (rule repr_int_ascii)

lemma to_ascii_ascii: "\<forall>c\<in>set s. (of_char c :: nat) < 128 \<Longrightarrow> to_ascii u (ascii s) = map of_char s"
  by (simp add: to_ascii_def ascii_def)

lemma dropWhile_none: "\<forall>c\<in>set xs. \<not> P c \<Longrightarrow> dropWhile P xs = xs"
  by (cases xs) simp_all

lemma strip_digits:
  assumes "\<forall>c\<in>set ds. \<not> py_space c"
  shows "rev (dropWhile py_space (rev (dropWhile py_space ds))) = ds"
proof -
  from assms have "dropWhile py_space ds = ds" "dropWhile py_space (rev ds) = rev ds"
    by (simp_all add: dropWhile_none)
  then show ?thesis by simp
qed

lemma py_int_repr_int: "py_int u (ascii (repr_int i)) = Inr i"
proof -
  let ?n = "nat \<bar>i\<bar>"
  let ?ds = "map of_char (show_nat ?n) :: nat list"
  have d: "\<forall>c\<in>set ?ds. 48 \<le> c \<and> c < 58"
    using show_nat_digits [of ?n] by simp
  obtain c cs where s: "?ds = c # cs"
    using show_nat_nonempty [of ?n] by (cases ?ds) auto
  with d have c: "c \<noteq> 45" "c \<noteq> 43" by auto
  have n: "int_digits 0 False ?ds = Some ?n"
    using int_digits_fold [OF d, of False 0] s digit_fold_show_nat [of ?n] by simp
  have a: "to_ascii u (ascii (repr_int i)) = map of_char (repr_int i)"
    by (rule to_ascii_ascii) (rule repr_int_ascii)
  show ?thesis
  proof (cases "i < 0")
    case True
    then have r: "map of_char (repr_int i) = 45 # ?ds"
      by (simp add: repr_int_def abs_if)
    have "\<forall>c\<in>set (45 # ?ds). \<not> py_space c"
      using d by (auto simp: py_space_def)
    then have "rev (dropWhile py_space (rev (dropWhile py_space (45 # ?ds)))) = 45 # ?ds"
      by (rule strip_digits)
    with True n show ?thesis
      unfolding py_int_def a r by (simp add: Let_def)
  next
    case False
    then have r: "map of_char (repr_int i) = ?ds"
      by (simp add: repr_int_def abs_if)
    have "\<forall>c\<in>set ?ds. \<not> py_space c"
      using d by (auto simp: py_space_def)
    then have "rev (dropWhile py_space (rev (dropWhile py_space ?ds))) = ?ds"
      by (rule strip_digits)
    with False n c s show ?thesis
      unfolding py_int_def a r by (simp add: Let_def)
  qed
qed

section \<open>Facts about the Redis commands\<close>

lemma live_send [simp]: "live (send c r) = live r"
  by (rule ext) (simp add: live_def send_def split: option.splits)

lemma live_update:
  "clock r' = clock r \<Longrightarrow> keyspace r' = (keyspace r)(k \<mapsto> (v, None))
    \<Longrightarrow> live r' k2 = (if k2 = k then Some (v, None) else live r k2)"
  by (simp add: live_def split: option.splits)

lemma redis_get_absent:
  "utf8_encode name = Inr k \<Longrightarrow> live r k = None \<Longrightarrow> redis_get name r = (Inr None, send (GET k) r)"
  by (simp add: redis_get_def)

lemma redis_get_string:
  "utf8_encode name = Inr k \<Longrightarrow> live r k = Some (RString v, d)
    \<Longrightarrow> redis_get name r = (Inr (Some v), send (GET k) r)"
  by (simp add: redis_get_def)

lemma get_absent_key:
  "utf8_encode key = Inr k \<Longrightarrow> live self k = None
    \<Longrightarrow> get key None self = (Inr (PStr []), send (GET k) self)"
  by (simp add: get_def redis_get_absent decode_value_def)

lemma live_init [simp]: "live (init self) k = None"
  by (simp add: init_def flushdb_def live_def send_def)

lemma string2ll_range: "string2ll v = Some i \<Longrightarrow> - (2 ^ 63) \<le> i \<and> i < 2 ^ 63"
  by (auto simp: string2ll_def split: option.splits if_splits list.splits)

lemma counter_range: "counter r k = Some i \<Longrightarrow> - (2 ^ 63) \<le> i \<and> i < 2 ^ 63"
proof -
  assume c: "counter r k = Some i"
  show ?thesis
  proof (cases "live r k")
    case None
    with c show ?thesis by (simp add: counter_def)
  next
    case (Some e)
    then obtain v d where "live r k = Some (v, d)" by (cases e) auto
    with c show ?thesis
      by (cases v) (auto simp: counter_def dest: string2ll_range)
  qed
qed

lemma redis_get_effect:
  assumes "utf8_encode name = Inr k"
  shows "snd (redis_get name r) = send (GET k) r"
  using assms by (simp add: redis_get_def)

lemma redis_set_effect:
  assumes "utf8_encode name = Inr k" and "encode_value v = Inr b"
  obtains r' where "redis_set name v r = (Inr True, r')"
    and "clock r' = clock r" and "sent r' = sent r @ [SET k b]"
    and "\<And>k2. live r' k2 = (if k2 = k then Some (RString b, None) else live r k2)"
proof
  let ?r = "(send (SET k b) r)\<lparr>keyspace := (keyspace r)(k \<mapsto> (RString b, None))\<rparr>"
  show "redis_set name v r = (Inr True, ?r)"
    using assms by (simp add: redis_set_def)
  show "clock ?r = clock r" "sent ?r = sent r @ [SET k b]"
    by (simp_all add: send_def)
  show "live ?r k2 = (if k2 = k then Some (RString b, None) else live r k2)" for k2
    by (simp add: live_def send_def split: option.splits)
qed

lemma redis_incr_effect:
  assumes "utf8_encode name = Inr k" and "counter r k = Some i" and "i < 2 ^ 63 - 1"
  obtains r' where "redis_incr name r = (Inr (i + 1), r')"
    and "clock r' = clock r" and "sent r' = sent r @ [INCR k]"
    and "counter r' k = Some (i + 1)"
    and "\<And>k2. k2 \<noteq> k \<Longrightarrow> live r' k2 = live r k2"
proof
  let ?r = "(send (INCR k) r)\<lparr>keyspace :=
              (keyspace r)(k \<mapsto> (RString (repr_int (i + 1)), deadline r k))\<rparr>"
  show "redis_incr name r = (Inr (i + 1), ?r)"
    using assms by (simp add: redis_incr_def)
  show "clock ?r = clock r" "sent ?r = sent r @ [INCR k]"
    by (simp_all add: send_def)
  show "live ?r k2 = live r k2" if "k2 \<noteq> k" for k2
    using that by (simp add: live_def send_def split: option.splits)
  have range: "- (2 ^ 63) \<le> i + 1" "i + 1 < 2 ^ 63"
    using counter_range [OF assms(2)] assms(3) by simp_all
  have "\<exists>d. live ?r k = Some (RString (repr_int (i + 1)), d)"
    by (auto simp: live_def send_def deadline_def split: option.splits)
  then show "counter ?r k = Some (i + 1)"
    using string2ll_repr_int [OF range] by (auto simp: counter_def)
qed

lemma redis_expire_effect:
  assumes "utf8_encode name = Inr k" and "live r k = Some (v, d)" and "0 < seconds"
  obtains r' where "redis_expire name seconds r = (Inr True, r')"
    and "clock r' = clock r" and "sent r' = sent r @ [EXPIRE k seconds]"
    and "\<And>k2. live r' k2
           = (if k2 = k then Some (v, Some (clock r + seconds * 1000)) else live r k2)"
proof
  let ?r = "(send (EXPIRE k seconds) r)\<lparr>keyspace :=
              (keyspace r)(k \<mapsto> (v, Some (clock r + seconds * 1000)))\<rparr>"
  show "redis_expire name seconds r = (Inr True, ?r)"
    using assms by (simp add: redis_expire_def)
  show "clock ?r = clock r" "sent ?r = sent r @ [EXPIRE k seconds]"
    by (simp_all add: send_def)
  show "live ?r k2 = (if k2 = k then Some (v, Some (clock r + seconds * 1000)) else live r k2)"
    for k2
    using assms(3) by (simp add: live_def send_def split: option.splits)
qed

lemma counter_cong: "live r' k = live r k \<Longrightarrow> counter r' k = counter r k"
  by (simp add: counter_def)

lemma cached_key:
  "utf8_encode url = Inr k \<Longrightarrow> utf8_encode (ascii ''cached:'' @ url) = Inr (''cached:'' @ k)"
  by (simp add: utf8_encode_append utf8_encode_ascii)

lemma count_key:
  "utf8_encode url = Inr k \<Longrightarrow> utf8_encode (ascii ''count:'' @ url) = Inr (''count:'' @ k)"
  by (simp add: utf8_encode_append utf8_encode_ascii)

lemma count_url_access_fetches:
  assumes url: "utf8_encode url = Inr k"
    and miss: "live r (''cached:'' @ k) = None \<or> live r (''cached:'' @ k) = Some (RString [], d)"
    and page: "method url = Inr html_content"
    and html: "utf8_encode html_content = Inr b"
    and count: "counter r (''count:'' @ k) = Some i" "i < 2 ^ 63 - 1"
  obtains r' where "count_url_access method url r = (Inr html_content, r')"
    and "clock r' = clock r"
    and "live r' (''cached:'' @ k) = Some (RString b, Some (clock r + 10000))"
    and "counter r' (''count:'' @ k) = Some (i + 1)"
    and "sent r' = sent r @ [GET (''cached:'' @ k), INCR (''count:'' @ k),
                             SET (''cached:'' @ k) b, EXPIRE (''cached:'' @ k) 10]"
proof -
  let ?ck = "''cached:'' @ k" and ?nk = "''count:'' @ k"
  note ck = cached_key [OF url] and nk = count_key [OF url]
  let ?r1 = "send (GET ?ck) r"
  from miss have "redis_get (ascii ''cached:'' @ url) r = (Inr None, ?r1)
      \<or> redis_get (ascii ''cached:'' @ url) r = (Inr (Some []), ?r1)"
    using redis_get_absent [OF ck, of r] redis_get_string [OF ck, of r "[]" d] by blast
  then obtain cached_data where g: "redis_get (ascii ''cached:'' @ url) r = (Inr cached_data, ?r1)"
    and falsy: "\<not> truthy cached_data"
    by (auto simp: truthy_def)
  have "counter ?r1 ?nk = Some i"
    using count(1) by (simp add: counter_def)
  from redis_incr_effect [OF nk this count(2)]
  obtain r2 where r2: "redis_incr (ascii ''count:'' @ url) ?r1 = (Inr (i + 1), r2)"
    "clock r2 = clock ?r1" "sent r2 = sent ?r1 @ [INCR ?nk]"
    "counter r2 ?nk = Some (i + 1)" "\<And>k2. k2 \<noteq> ?nk \<Longrightarrow> live r2 k2 = live ?r1 k2"
    by blast
  have enc: "encode_value (PStr html_content) = Inr b"
    using html by (simp add: encode_value_def)
  from redis_set_effect [OF ck enc, of r2]
  obtain r3 where r3: "redis_set (ascii ''cached:'' @ url) (PStr html_content) r2 = (Inr True, r3)"
    "clock r3 = clock r2" "sent r3 = sent r2 @ [SET ?ck b]"
    "\<And>k2. live r3 k2 = (if k2 = ?ck then Some (RString b, None) else live r2 k2)"
    by blast
  have "live r3 ?ck = Some (RString b, None)"
    by (simp add: r3(4))
  from redis_expire_effect [OF ck this, of 10]
  obtain r4 where r4: "redis_expire (ascii ''cached:'' @ url) 10 r3 = (Inr True, r4)"
    "clock r4 = clock r3" "sent r4 = sent r3 @ [EXPIRE ?ck 10]"
    "\<And>k2. live r4 k2 = (if k2 = ?ck then Some (RString b, Some (clock r3 + 10 * 1000)) else live r3 k2)"
    by auto
  have ne: "?nk \<noteq> ?ck" by simp
  have c3: "clock r3 = clock r"
    using r3(2) r2(2) by (simp add: send_def)
  show ?thesis
  proof
    show "count_url_access method url r = (Inr html_content, r4)"
      unfolding count_url_access_def Let_def
      using g falsy page r2(1) r3(1) r4(1) by simp
    show "clock r4 = clock r"
      using r4(2) c3 by simp
    show "live r4 ?ck = Some (RString b, Some (clock r + 10000))"
      using r4(4) [of ?ck] c3 by simp
    have "live r4 ?nk = live r2 ?nk"
      using r4(4) [of ?nk] r3(4) [of ?nk] ne by simp
    then show "counter r4 ?nk = Some (i + 1)"
      using r2(4) by (simp add: counter_def)
    show "sent r4 = sent r @ [GET ?ck, INCR ?nk, SET ?ck b, EXPIRE ?ck 10]"
      using r4(3) r3(3) r2(3) by (simp add: send_def)
  qed
qed

lemma count_url_access_cached:
  assumes url: "utf8_encode url = Inr k"
    and cached: "live r (''cached:'' @ k) = Some (RString b, d)" "b \<noteq> []"
  shows "count_url_access method url r = (utf8_decode b, send (GET (''cached:'' @ k)) r)"
  using cached cached_key [OF url]
  by (simp add: count_url_access_def redis_get_def truthy_def)

lemma live_empty_redis [simp]: "live empty_redis k = None"
  by (simp add: live_def empty_redis_def)

lemma counter_absent: "live r k = None \<Longrightarrow> counter r k = Some 0"
  by (simp add: counter_def)

lemma live_elapse:
  "live (elapse ms r) k =
    (case live r k of
       None \<Rightarrow> None
     | Some (v, None) \<Rightarrow> Some (v, None)
     | Some (v, Some t) \<Rightarrow> if t \<le> clock r + ms then None else Some (v, Some t))"
  by (auto simp: live_def elapse_def split: option.splits)

lemma sent_elapse [simp]: "sent (elapse ms r) = sent r"
  by (simp add: elapse_def)

lemma clock_elapse [simp]: "clock (elapse ms r) = clock r + ms"
  by (simp add: elapse_def)

lemma get_page_fetches:
  assumes "utf8_encode url = Inr k"
    and "live r (''cached:'' @ k) = None \<or> live r (''cached:'' @ k) = Some (RString [], d)"
    and "web url = Inr html_content"
    and "utf8_encode html_content = Inr b"
    and "counter r (''count:'' @ k) = Some i" and "i < 2 ^ 63 - 1"
  shows "fst (get_page web url r) = Inr html_content"
    and "clock (snd (get_page web url r)) = clock r"
    and "live (snd (get_page web url r)) (''cached:'' @ k)
          = Some (RString b, Some (clock r + 10000))"
    and "counter (snd (get_page web url r)) (''count:'' @ k) = Some (i + 1)"
    and "issued r (snd (get_page web url r))
          = [GET (''cached:'' @ k), INCR (''count:'' @ k),
             SET (''cached:'' @ k) b, EXPIRE (''cached:'' @ k) 10]"
proof -
  from count_url_access_fetches [of _ _ _ _ web, OF assms]
  obtain r' where r': "count_url_access web url r = (Inr html_content, r')"
    "clock r' = clock r"
    "live r' (''cached:'' @ k) = Some (RString b, Some (clock r + 10000))"
    "counter r' (''count:'' @ k) = Some (i + 1)"
    "sent r' = sent r @ [GET (''cached:'' @ k), INCR (''count:'' @ k),
                         SET (''cached:'' @ k) b, EXPIRE (''cached:'' @ k) 10]"
    by blast
  then show "fst (get_page web url r) = Inr html_content"
    and "clock (snd (get_page web url r)) = clock r"
    and "live (snd (get_page web url r)) (''cached:'' @ k)
          = Some (RString b, Some (clock r + 10000))"
    and "counter (snd (get_page web url r)) (''count:'' @ k) = Some (i + 1)"
    and "issued r (snd (get_page web url r))
          = [GET (''cached:'' @ k), INCR (''count:'' @ k),
             SET (''cached:'' @ k) b, EXPIRE (''cached:'' @ k) 10]"
    by (simp_all add: get_page_def issued_def)
qed

lemma http_a: "utf8_encode (ascii ''http://a'') = Inr ''http://a''"
  by (rule utf8_encode_ascii) simp

lemma utf8_encode_hi: "utf8_encode (ascii ''hi'') = Inr ''hi''"
  by (rule utf8_encode_ascii) simp

lemma deadline_send [simp]: "deadline (send c r) = deadline r"
  by (rule ext) (simp add: deadline_def)

lemma counter_send [simp]: "counter (send c r) = counter r"
  by (rule ext) (simp add: counter_def)

lemma redis_incr_deadline:
  assumes "utf8_encode name = Inr k" and "counter r k = Some i" and "i < 2 ^ 63 - 1"
  shows "deadline (snd (redis_incr name r)) k = deadline r k"
  using assms
  by (auto simp: redis_incr_def deadline_def live_def send_def split: option.splits)

lemma counter_elapse:
  "deadline r k = None \<Longrightarrow> counter (elapse ms r) k = counter r k"
  by (auto simp: counter_def deadline_def live_elapse split: option.splits)

lemma hex_digits_chars:
  "\<forall>c\<in>set (hex_digits n x). (of_char c :: nat) < 128 \<and> c \<noteq> CHR ''-''"
proof (induction n arbitrary: x)
  case 0
  then show ?case by simp
next
  case (Suc n)
  define m where "m = x mod 16"
  have m: "m < 16" by (simp add: m_def)
  have "(of_char (digit_char m) :: nat) = (if m < 10 then 48 + m else 87 + m)"
    using m by (rule digit_char_code)
  with m have "(of_char (digit_char m) :: nat) < 128" "(of_char (digit_char m) :: nat) \<noteq> 45"
    by (simp_all split: if_splits)
  then have "(of_char (digit_char (x mod 16)) :: nat) < 128 \<and> digit_char (x mod 16) \<noteq> CHR ''-''"
    by (auto simp: m_def)
  with Suc show ?case by simp
qed

lemma length_hex_digits [simp]: "length (hex_digits n x) = n"
  by (induction n arbitrary: x) simp_all

lemma uuid_hex_ascii: "\<forall>c\<in>set (uuid_hex u). (of_char c :: nat) < 128"
proof -
  have "\<forall>c\<in>set (hex_digits 32 (unat u)). (of_char c :: nat) < 128"
    using hex_digits_chars by blast
  then show ?thesis
    by (auto simp: uuid_hex_def Let_def dest!: in_set_takeD in_set_dropD)
qed

lemma length_uuid_hex [simp]: "length (uuid_hex u) = 36"
  by (simp add: uuid_hex_def Let_def)

lemma utf8_encode_uuid_str: "utf8_encode (uuid_str u) = Inr (uuid_hex u)"
  unfolding uuid_str_def by (rule utf8_encode_ascii) (rule uuid_hex_ascii)

lemma store_effect:
  assumes "encode_value data = Inr b"
  obtains r' where "store random data self = (Inr (PStr (uuid_str (uuid4 random))), r')"
    and "clock r' = clock self"
    and "sent r' = sent self @ [SET (uuid_hex (uuid4 random)) b]"
    and "\<And>k2. live r' k2
           = (if k2 = uuid_hex (uuid4 random) then Some (RString b, None) else live self k2)"
proof -
  from redis_set_effect [OF utf8_encode_uuid_str assms, of "uuid4 random" self]
  obtain r' where r': "redis_set (uuid_str (uuid4 random)) data self = (Inr True, r')"
    "clock r' = clock self" "sent r' = sent self @ [SET (uuid_hex (uuid4 random)) b]"
    "\<And>k2. live r' k2
       = (if k2 = uuid_hex (uuid4 random) then Some (RString b, None) else live self k2)"
    by blast
  show ?thesis
  proof
    show "store random data self = (Inr (PStr (uuid_str (uuid4 random))), r')"
      using r'(1) by (simp add: store_def)
  qed (use r' in auto)
qed

lemma store_live:
  assumes "encode_value data = Inr b"
  shows "fst (store random data self) = Inr (PStr (uuid_str (uuid4 random)))"
    and "live (snd (store random data self)) k2
          = (if k2 = uuid_hex (uuid4 random) then Some (RString b, None) else live self k2)"
    and "issued self (snd (store random data self)) = [SET (uuid_hex (uuid4 random)) b]"
proof -
  from store_effect [OF assms, of random self]
  obtain r' where r': "store random data self = (Inr (PStr (uuid_str (uuid4 random))), r')"
    "sent r' = sent self @ [SET (uuid_hex (uuid4 random)) b]"
    "\<And>k2. live r' k2
       = (if k2 = uuid_hex (uuid4 random) then Some (RString b, None) else live self k2)"
    by blast
  show "fst (store random data self) = Inr (PStr (uuid_str (uuid4 random)))"
    by (simp add: r'(1))
  show "live (snd (store random data self)) k2
          = (if k2 = uuid_hex (uuid4 random) then Some (RString b, None) else live self k2)"
    by (simp add: r'(1) r'(3))
  show "issued self (snd (store random data self)) = [SET (uuid_hex (uuid4 random)) b]"
    by (simp add: r'(1) r'(2) issued_def)
qed

lemma store_returns:
  assumes "store random data self = (Inr v, self')"
  shows "v = PStr (uuid_str (uuid4 random)) \<and> (\<exists>b. encode_value data = Inr b)"
  using assms
  by (auto simp: store_def redis_set_def utf8_encode_uuid_str split: sum.splits)

lemma get_string:
  assumes "utf8_encode key = Inr k" and "live self k = Some (RString b, d)"
  shows "get key None self = (Inr (decode_value (Some b) (PStr [])), send (GET k) self)"
    and "get_str key self = (Inr (decode_value (Some b) (PStr [])), send (GET k) self)"
  using assms by (simp_all add: get_def get_str_def redis_get_string)

lemma decode_value_invalid:
  "utf8_decode b = Inl e \<Longrightarrow> decode_value (Some b) dflt = dflt"
  by (simp add: decode_value_def)

lemma decode_value_valid:
  "utf8_decode b = Inr s \<Longrightarrow> decode_value (Some b) dflt = PStr s"
  by (simp add: decode_value_def)

lemma store_then_get:
  assumes "store random data self = (Inr (PStr key), self')"
  shows "fst (get key None (elapse ms self')) =
    Inr (case data of
           PStr s \<Rightarrow> PStr s
         | PBytes b \<Rightarrow> decode_value (Some b) (PStr [])
         | PInt i \<Rightarrow> PStr (ascii (repr_int i))
         | PFloat t \<Rightarrow> decode_value (Some t) (PStr []))"
proof -
  from store_returns [OF assms] obtain b where key: "key = uuid_str (uuid4 random)"
    and b: "encode_value data = Inr b"
    by auto
  from store_effect [OF b, of random self]
  obtain r' where r': "store random data self = (Inr (PStr (uuid_str (uuid4 random))), r')"
    "\<And>k2. live r' k2
       = (if k2 = uuid_hex (uuid4 random) then Some (RString b, None) else live self k2)"
    by blast
  from r'(1) assms have "self' = r'"
    by simp
  then have "live self' (uuid_hex (uuid4 random)) = Some (RString b, None)"
    by (simp add: r'(2))
  then have "live (elapse ms self') (uuid_hex (uuid4 random)) = Some (RString b, None)"
    by (simp add: live_elapse)
  from get_string(1) [OF utf8_encode_uuid_str this]
  have g: "fst (get key None (elapse ms self')) = Inr (decode_value (Some b) (PStr []))"
    by (simp add: key)
  show ?thesis
  proof (cases data)
    case (PStr s)
    with b have "utf8_decode b = Inr s"
      by (simp add: encode_value_def utf8_decode_encode)
    with g PStr show ?thesis by (simp add: decode_value_def)
  next
    case (PBytes x)
    with b g show ?thesis by (simp add: encode_value_def)
  next
    case (PInt i)
    with b have "b = repr_int i"
      by (simp add: encode_value_def)
    then have "decode_value (Some b) (PStr []) = PStr (ascii (repr_int i))"
      by (simp add: decode_value_valid [OF utf8_decode_repr_int])
    with g PInt show ?thesis by simp
  next
    case (PFloat t)
    with b g show ?thesis by (simp add: encode_value_def)
  qed
qed

lemma encode_value_PInt_42: "encode_value (PInt 42) = Inr (repr_int 42)"
  by (simp add: encode_value_def)

lemma utf8_encode_abc: "utf8_encode (ascii ''abc'') = Inr ''abc''"
  by (rule utf8_encode_ascii) simp

lemma py_int_abc: "py_int u (ascii ''abc'') = Inl ValueError"
  by (simp add: py_int_def to_ascii_def ascii_def py_space_def)

lemma utf8_decode_ignore_abc: "utf8_decode_ignore ''abc'' = ascii ''abc''"
  by (simp add: utf8_decode_ignore_def utf8_next_def ascii_def)

lemma get_int_absent:
  assumes "utf8_encode key = Inr k" and "live self k = None"
  shows "fst (get_int u key self) = Inl AttributeError"
  using assms by (simp add: get_int_def get_def redis_get_absent)

lemma get_int_string:
  assumes "utf8_encode key = Inr k" and "live self k = Some (RString b, d)"
  shows "fst (get_int u key self) = map_sum id PInt (py_int u (utf8_decode_ignore b))"
  using assms by (simp add: get_int_def get_def redis_get_string)

lemma get_absent:
  assumes "utf8_encode key = Inr k" and "live self k = None"
  shows "fst (get key None self) = Inr (PStr [])" and "fst (get_str key self) = Inr (PStr [])"
  using assms by (simp_all add: get_def get_str_def redis_get_absent decode_value_def)

lemma count_url_access_deadline:
  assumes url: "utf8_encode url = Inr k"
    and miss: "live r (''cached:'' @ k) = None \<or> live r (''cached:'' @ k) = Some (RString [], d)"
    and page: "method url = Inr html_content"
    and html: "utf8_encode html_content = Inr b"
    and count: "counter r (''count:'' @ k) = Some i" "i < 2 ^ 63 - 1"
  shows "deadline (snd (count_url_access method url r)) (''count:'' @ k)
          = deadline r (''count:'' @ k)"
proof -
  let ?ck = "''cached:'' @ k" and ?nk = "''count:'' @ k"
  note ck = cached_key [OF url] and nk = count_key [OF url]
  let ?r1 = "send (GET ?ck) r"
  from miss have "redis_get (ascii ''cached:'' @ url) r = (Inr None, ?r1)
      \<or> redis_get (ascii ''cached:'' @ url) r = (Inr (Some []), ?r1)"
    using redis_get_absent [OF ck, of r] redis_get_string [OF ck, of r "[]" d] by blast
  then obtain cached_data where g: "redis_get (ascii ''cached:'' @ url) r = (Inr cached_data, ?r1)"
    and falsy: "\<not> truthy cached_data"
    by (auto simp: truthy_def)
  have c1: "counter ?r1 ?nk = Some i"
    using count(1) by simp
  from redis_incr_effect [OF nk c1 count(2)]
  obtain r2 where r2: "redis_incr (ascii ''count:'' @ url) ?r1 = (Inr (i + 1), r2)"
    "clock r2 = clock ?r1"
    by blast
  have d2: "deadline r2 ?nk = deadline r ?nk"
    using redis_incr_deadline [OF nk c1 count(2)] r2(1) by simp
  have enc: "encode_value (PStr html_content) = Inr b"
    using html by (simp add: encode_value_def)
  from redis_set_effect [OF ck enc, of r2]
  obtain r3 where r3: "redis_set (ascii ''cached:'' @ url) (PStr html_content) r2 = (Inr True, r3)"
    "\<And>k2. live r3 k2 = (if k2 = ?ck then Some (RString b, None) else live r2 k2)"
    by blast
  have "live r3 ?ck = Some (RString b, None)"
    by (simp add: r3(2))
  from redis_expire_effect [OF ck this, of 10]
  obtain r4 where r4: "redis_expire (ascii ''cached:'' @ url) 10 r3 = (Inr True, r4)"
    "\<And>k2. live r4 k2 = (if k2 = ?ck then Some (RString b, Some (clock r3 + 10 * 1000)) else live r3 k2)"
    by auto
  have "count_url_access method url r = (Inr html_content, r4)"
    unfolding count_url_access_def Let_def
    using g falsy page r2(1) r3(1) r4(1) by simp
  moreover have "live r4 ?nk = live r2 ?nk"
    using r4(2) [of ?nk] r3(2) [of ?nk] by simp
  ultimately show ?thesis
    using d2 by (simp add: deadline_def)
qed

lemma deadline_absent: "live r k = None \<Longrightarrow> deadline r k = None"
  by (simp add: deadline_def)

lemma utf8_encode_new: "utf8_encode (ascii ''new'') = Inr ''new''"
  by (rule utf8_encode_ascii) simp

lemma utf8_encode_nil: "utf8_encode [] = Inr []"
  by (simp add: utf8_encode_def)

section \<open>The claims\<close>

text \<open>
  C9. Constructing a RedisCache flushes the database: whatever the store held before,
  no key is left in it when \<open>__init__\<close> returns, and the one command sent is the flush.
\<close>

theorem init_flushes_database:
  "keyspace (init self) = Map.empty \<and> live (init self) k = None
    \<and> issued self (init self) = [FLUSHDB]"
  by (simp add: init_def flushdb_def live_def send_def issued_def)

theorem init_flushes_database_witness:
  "keyspace (init (snd (store 0 (PInt 42) empty_redis))) = Map.empty
    \<and> live (init (snd (store 0 (PInt 42) empty_redis))) ''k'' = None
    \<and> issued (snd (store 0 (PInt 42) empty_redis)) (init (snd (store 0 (PInt 42) empty_redis)))
        = [FLUSHDB]"
  by (rule init_flushes_database)

text \<open>
  C10. For a key that is not in the store (its UTF-8 form is not a live key), \<open>get\<close>
  without a decoding function returns the empty string: it neither raises nor returns
  \<open>None\<close>.
\<close>

theorem get_missing_key_is_empty_string:
  assumes "utf8_encode key = Inr k" and "live self k = None"
  shows "fst (get key None self) = Inr (PStr [])"
  using assms by (simp add: get_absent_key)

theorem get_missing_key_is_empty_string_witness:
  "utf8_encode (ascii ''missing'') = Inr ''missing''
    \<and> live (init empty_redis) ''missing'' = None
    \<and> fst (get (ascii ''missing'') None (init empty_redis)) = Inr (PStr [])"
proof -
  have e: "utf8_encode (ascii ''missing'') = Inr ''missing''"
    by (rule utf8_encode_ascii) simp
  have l: "live (init empty_redis) ''missing'' = None"
    by simp
  show ?thesis
    using e l get_missing_key_is_empty_string [OF e l] by simp
qed

text \<open>
  C6. A call to \<open>get_page\<close> that finds no cached body for the URL fetches the page,
  stores the body under the key \<open>cached:\<close> followed by the URL, and gives that entry
  a time-to-live of 10 seconds: the entry is there for the next 10000 milliseconds and
  gone after. The page must be text that UTF-8 can encode, and the counter of the URL
  must be one that \<open>INCR\<close> accepts, as every counter that this code has written is.
\<close>

theorem get_page_miss_caches_for_ten_seconds:
  assumes "utf8_encode url = Inr k"
    and "live redis_store (''cached:'' @ k) = None"
    and "web url = Inr html_content"
    and "utf8_encode html_content = Inr b"
    and "counter redis_store (''count:'' @ k) = Some i" and "i < 2 ^ 63 - 1"
  shows "fst (get_page web url redis_store) = Inr html_content
    \<and> issued redis_store (snd (get_page web url redis_store))
        = [GET (''cached:'' @ k), INCR (''count:'' @ k),
           SET (''cached:'' @ k) b, EXPIRE (''cached:'' @ k) 10]
    \<and> live (elapse ms (snd (get_page web url redis_store))) (''cached:'' @ k)
        = (if ms < 10000 then Some (RString b, Some (clock redis_store + 10000)) else None)"
proof -
  note f = get_page_fetches [where web = web and d = None, OF assms(1) disjI1 [OF assms(2)] assms(3-6)]
  show ?thesis
    using f by (simp add: live_elapse)
qed

theorem get_page_miss_caches_for_ten_seconds_witness:
  "fst (get_page (\<lambda>url. Inr (ascii ''hi'')) (ascii ''http://a'') empty_redis) = Inr (ascii ''hi'')
    \<and> issued empty_redis (snd (get_page (\<lambda>url. Inr (ascii ''hi'')) (ascii ''http://a'') empty_redis))
        = [GET ''cached:http://a'', INCR ''count:http://a'',
           SET ''cached:http://a'' ''hi'', EXPIRE ''cached:http://a'' 10]
    \<and> live (elapse 9999 (snd (get_page (\<lambda>url. Inr (ascii ''hi'')) (ascii ''http://a'') empty_redis)))
          ''cached:http://a'' = Some (RString ''hi'', Some 10000)
    \<and> live (elapse 10000 (snd (get_page (\<lambda>url. Inr (ascii ''hi'')) (ascii ''http://a'') empty_redis)))
          ''cached:http://a'' = None"
proof -
  have c: "counter empty_redis (''count:'' @ ''http://a'') = Some 0"
    by (simp add: counter_absent)
  have l: "live empty_redis (''cached:'' @ ''http://a'') = None"
    by simp
  have z: "clock empty_redis = 0"
    by (simp add: empty_redis_def)
  note w = get_page_miss_caches_for_ten_seconds
    [of "ascii ''http://a''" "''http://a''" empty_redis "\<lambda>url. Inr (ascii ''hi'')"
        "ascii ''hi''" "''hi''" 0, OF http_a l refl utf8_encode_hi c]
  show ?thesis
    using w [of 9999] w [of 10000] by (simp add: z)
qed

text \<open>
  C1, as the code has it. \<open>get\<close> without a decoding function, on the key that \<open>store\<close>
  returned, yields the UTF-8 decoding of the bytes that Redis holds for the value, as a
  str: the stored value itself when it is a str, the decimal text of an int, the text
  of a float, the decoded text of bytes, and the empty string when the bytes are not
  valid UTF-8. It yields it however much time has passed, since \<open>SET\<close> gives no
  deadline.
\<close>

theorem get_after_store_decodes:
  assumes "store random data self = (Inr (PStr key), self')"
  shows "fst (get key None (elapse ms self')) =
    Inr (case data of
           PStr s \<Rightarrow> PStr s
         | PBytes b \<Rightarrow> decode_value (Some b) (PStr [])
         | PInt i \<Rightarrow> PStr (ascii (repr_int i))
         | PFloat t \<Rightarrow> decode_value (Some t) (PStr []))"
  using assms by (rule store_then_get)

theorem get_after_store_decodes_witness:
  "store 0 (PStr (ascii ''abc'')) empty_redis
      = (Inr (PStr (uuid_str (uuid4 0))), snd (store 0 (PStr (ascii ''abc'')) empty_redis))
    \<and> fst (get (uuid_str (uuid4 0)) None
              (elapse 5000 (snd (store 0 (PStr (ascii ''abc'')) empty_redis))))
        = Inr (PStr (ascii ''abc''))"
proof -
  have e: "encode_value (PStr (ascii ''abc'')) = Inr ''abc''"
    by (simp add: encode_value_def utf8_encode_abc)
  have s: "store 0 (PStr (ascii ''abc'')) empty_redis
      = (Inr (PStr (uuid_str (uuid4 0))), snd (store 0 (PStr (ascii ''abc'')) empty_redis))"
    using store_live(1) [OF e, of 0 empty_redis] by (simp add: prod_eq_iff)
  show ?thesis
    using s get_after_store_decodes [OF s, of 5000] by simp
qed

text \<open>
  C1 as stated fails: an int that is stored comes back as the str of its digits, which
  is not the int.
\<close>

theorem get_after_store_int_counterexample:
  "fst (store 0 (PInt 42) empty_redis) = Inr (PStr (uuid_str (uuid4 0)))
    \<and> fst (get (uuid_str (uuid4 0)) None (snd (store 0 (PInt 42) empty_redis)))
        = Inr (PStr (ascii (repr_int 42)))
    \<and> fst (get (uuid_str (uuid4 0)) None (snd (store 0 (PInt 42) empty_redis)))
        \<noteq> Inr (PInt 42)"
proof -
  have f: "fst (store 0 (PInt 42) empty_redis) = Inr (PStr (uuid_str (uuid4 0)))"
    by (rule store_live(1) [OF encode_value_PInt_42])
  then have s: "store 0 (PInt 42) empty_redis
      = (Inr (PStr (uuid_str (uuid4 0))), snd (store 0 (PInt 42) empty_redis))"
    by (simp add: prod_eq_iff)
  from store_then_get [OF s, of 0]
  have "fst (get (uuid_str (uuid4 0)) None (snd (store 0 (PInt 42) empty_redis)))
          = Inr (PStr (ascii (repr_int 42)))"
    by (simp add: elapse_def)
  with f show ?thesis by simp
qed

text \<open>
  C3. The claim: when decoding fails, every retrieval through \<open>get\<close>, \<open>get_str\<close> and
  \<open>get_int\<close> gives a default value. \<open>get_int\<close> does not: its docstring promises 0, its
  body has no handler, and the exception leaves the method. Stored text that is not a
  number raises \<open>ValueError\<close>, an absent key raises \<open>AttributeError\<close>.
\<close>

theorem get_int_raises_instead_of_default:
  "fst (get_int u (uuid_str (uuid4 0)) (snd (store 0 (PStr (ascii ''abc'')) (init empty_redis))))
      = Inl ValueError
    \<and> fst (get_int u (ascii ''missing'') (init empty_redis)) = Inl AttributeError"
proof -
  have e: "encode_value (PStr (ascii ''abc'')) = Inr ''abc''"
    by (simp add: encode_value_def utf8_encode_abc)
  have "live (snd (store 0 (PStr (ascii ''abc'')) (init empty_redis))) (uuid_hex (uuid4 0))
          = Some (RString ''abc'', None)"
    by (simp add: store_live(2) [OF e])
  from get_int_string [OF utf8_encode_uuid_str this]
  have 1: "fst (get_int u (uuid_str (uuid4 0))
                 (snd (store 0 (PStr (ascii ''abc'')) (init empty_redis)))) = Inl ValueError"
    by (simp add: utf8_decode_ignore_abc py_int_abc)
  have "utf8_encode (ascii ''missing'') = Inr ''missing''"
    by (rule utf8_encode_ascii) simp
  from get_int_absent [OF this live_init]
  have 2: "fst (get_int u (ascii ''missing'') (init empty_redis)) = Inl AttributeError" .
  from 1 2 show ?thesis by simp
qed

text \<open>
  C2. The claim: while a cached body for the URL is present, \<open>get_page\<close> returns it and
  leaves the counter of the URL as it is. The wrapper tests the cached bytes for truth,
  not for presence, so a cached body that is empty counts as absent. A page with an
  empty body is fetched and cached; one second later the entry is still there, with
  nine seconds to live, and the next call fetches the page again, returns what the page
  has become and moves the counter from 1 to 2.
\<close>

theorem get_page_refetches_empty_cached_body:
  "(let first = snd (get_page (\<lambda>url. Inr []) (ascii ''http://a'') empty_redis);
        later = elapse 1000 first;
        second = get_page (\<lambda>url. Inr (ascii ''new'')) (ascii ''http://a'') later
    in live later ''cached:http://a'' = Some (RString [], Some 10000)
       \<and> counter later ''count:http://a'' = Some 1
       \<and> fst second = Inr (ascii ''new'')
       \<and> counter (snd second) ''count:http://a'' = Some 2)"
proof -
  let ?first = "snd (get_page (\<lambda>url. Inr []) (ascii ''http://a'') empty_redis)"
  let ?later = "elapse 1000 ?first"
  have c0: "counter empty_redis (''count:'' @ ''http://a'') = Some 0"
    by (simp add: counter_absent)
  have l0: "live empty_redis (''cached:'' @ ''http://a'') = None
      \<or> live empty_redis (''cached:'' @ ''http://a'') = Some (RString [], None)"
    by simp
  note a = get_page_fetches [where web = "\<lambda>url. Inr []", OF http_a l0 refl utf8_encode_nil c0]
  have z: "clock empty_redis = 0"
    by (simp add: empty_redis_def)
  have d1: "deadline ?first (''count:'' @ ''http://a'') = None"
    using count_url_access_deadline
      [of _ _ _ _ "\<lambda>url. Inr []", OF http_a l0 refl utf8_encode_nil c0]
    by (simp add: get_page_def deadline_absent)
  have l1: "live ?later (''cached:'' @ ''http://a'') = Some (RString [], Some 10000)"
    using a(2,3) by (simp add: live_elapse z)
  have c1: "counter ?later (''count:'' @ ''http://a'') = Some 1"
    using a(4) counter_elapse [OF d1, of 1000] by simp
  note b = get_page_fetches [where web = "\<lambda>url. Inr (ascii ''new'')",
      OF http_a disjI2 [OF l1] refl utf8_encode_new c1]
  show ?thesis
    unfolding Let_def using l1 c1 b(1) b(4) by simp
qed

end
